theory Spec2Isabelle
  imports Main "HOL-Library.Word"
begin

unbundle bit_operations_syntax

section \<open>C strings\<close>

text \<open>
  A C string is modelled by the list of its bytes before the terminating NUL. Reading
  index \<open>i\<close> of the buffer gives the byte when \<open>i\<close> is below the length and the
  terminator at \<open>i = length s\<close>; the code never reads further.
\<close>

definition cget :: "string \<Rightarrow> nat \<Rightarrow> char" where
  "cget s i = (if i < length s then s ! i else CHR 0x00)"

text \<open>
  \<open>strncmp(a, b, n) == 0\<close> on NUL-terminated strings: the first \<open>n\<close> bytes agree, a
  shorter string ending where the other does.
\<close>

definition strncmp_eq :: "string \<Rightarrow> string \<Rightarrow> nat \<Rightarrow> bool" where
  "strncmp_eq a b n = (take n a = take n b)"

section \<open>get_clean_path\<close>

text \<open>
  The inner loop of the \<open>..\<close> case, after \<open>w--\<close>:
  \<^verbatim>\<open>while(w > dotdot && out[w] != '/') w--;\<close>
  It returns the final \<open>w\<close>.
\<close>

fun backtrack :: "string \<Rightarrow> nat \<Rightarrow> nat \<Rightarrow> nat" where
  "backtrack out 0 dotdot = 0"
| "backtrack out (Suc w) dotdot =
     (if Suc w > dotdot \<and> out ! Suc w \<noteq> CHR ''/'' then backtrack out w dotdot else Suc w)"

text \<open>
  The main loop \<^verbatim>\<open>while(r < n)\<close>. The second argument is the unread input
  \<open>path[r..n)\<close>, the third the written prefix \<open>out[0..w)\<close> (so \<open>w = length out\<close>), the
  fourth \<open>dotdot\<close>. The branches are in the order of the source.
\<close>

function clean_loop :: "bool \<Rightarrow> string \<Rightarrow> string \<Rightarrow> nat \<Rightarrow> string" where
  "clean_loop rooted [] out dotdot = out"
| "clean_loop rooted (c # cs) out dotdot =
     (if c = CHR ''/'' then clean_loop rooted cs out dotdot
      else if c = CHR ''.'' \<and> (cs = [] \<or> hd cs = CHR ''/'') then clean_loop rooted cs out dotdot
      else if c = CHR ''.'' \<and> cs \<noteq> [] \<and> hd cs = CHR ''.'' \<and> (tl cs = [] \<or> hd (tl cs) = CHR ''/'') then
        (if length out > dotdot then
           clean_loop rooted (tl cs) (take (backtrack out (length out - 1) dotdot) out) dotdot
         else if \<not> rooted then
           (let out1 = (if length out > 0 then out @ ''/'' else out) @ ''..''
            in clean_loop rooted (tl cs) out1 (length out1))
         else clean_loop rooted (tl cs) out dotdot)
      else
        (let out1 = (if rooted \<and> length out \<noteq> 1 \<or> \<not> rooted \<and> length out \<noteq> 0
                     then out @ ''/'' else out)
         in clean_loop rooted (dropWhile (\<lambda>x. x \<noteq> CHR ''/'') (c # cs))
              (out1 @ takeWhile (\<lambda>x. x \<noteq> CHR ''/'') (c # cs)) dotdot))"
  by pat_completeness auto
termination
proof (relation "measure (\<lambda>(rooted, path, out, dotdot). length path)")
  fix c :: char and cs :: string
  have "length (dropWhile (\<lambda>x. x \<noteq> CHR ''/'') cs) \<le> length cs"
    by (rule length_dropWhile_le)
  then show "c \<noteq> CHR ''/'' \<Longrightarrow>
      ((rooted, dropWhile (\<lambda>x. x \<noteq> CHR ''/'') (c # cs), out1, dotdot), (rooted, c # cs, out, dotdot))
        \<in> measure (\<lambda>(rooted, path, out, dotdot). length path)"
    for rooted out1 dotdot out
    by simp
qed (auto simp: neq_Nil_conv)

declare clean_loop.simps(2) [simp del]

text \<open>
  The buffer that \<open>get_clean_path\<close> fills when its \<open>malloc\<close> has succeeded: the leading
  slash of a rooted path is written first (\<open>r = 1\<close>, \<open>dotdot = 1\<close>), and an empty result
  is turned into \<open>"."\<close>. The value is the bytes written before the terminator.
\<close>

definition clean_buf :: "string \<Rightarrow> string" where
  "clean_buf path =
     (let rooted = (cget path 0 = CHR ''/'');
          out = (if rooted then clean_loop rooted (tl path) ''/'' 1
                 else clean_loop rooted path [] 0)
      in if length out = 0 then ''.'' else out)"

text \<open>
  \<open>get_clean_path\<close> itself: \<open>NULL\<close> for a \<open>NULL\<close> argument and when \<open>malloc\<close> fails.
  The first argument is the outcome of the \<open>malloc\<close> call.
\<close>

definition get_clean_path :: "bool \<Rightarrow> string option \<Rightarrow> string option" where
  "get_clean_path malloc_ok path =
     (case path of
        None \<Rightarrow> None
      | Some p \<Rightarrow> if \<not> malloc_ok then None else Some (clean_buf p))"

text \<open>
  The buffer \<open>out\<close> has \<open>malloc(n + 1)\<close> bytes, where \<open>n\<close> is the length of the path.
  The last store of \<open>get_clean_path\<close> is that of the terminator, at index \<open>w\<close>, the
  number of bytes written before it. The store is outside the buffer when that index is
  not below the size of the buffer; the behaviour of the C program is then undefined, and
  \<open>clean_buf\<close> and \<open>get_clean_path\<close> give the bytes that the code stores.
\<close>

definition out_size :: "string \<Rightarrow> nat" where
  "out_size path = length path + 1"

definition terminator_index :: "string \<Rightarrow> nat" where
  "terminator_index path = length (clean_buf path)"

definition out_overflow :: "string \<Rightarrow> bool" where
  "out_overflow path \<longleftrightarrow> out_size path \<le> terminator_index path"

section \<open>cat_path\<close>

text \<open>
  \<open>cat_path\<close> returns \<open>NULL\<close> when either argument is \<open>NULL\<close> or its \<open>malloc\<close> fails,
  and otherwise the buffer holding \<open>cwd\<close>, a slash and \<open>pathname\<close>.
\<close>

definition cat_path :: "bool \<Rightarrow> string option \<Rightarrow> string option \<Rightarrow> string option" where
  "cat_path malloc_ok cwd_arg pathname =
     (case cwd_arg of
        None \<Rightarrow> None
      | Some c \<Rightarrow>
          (case pathname of
             None \<Rightarrow> None
           | Some p \<Rightarrow> if \<not> malloc_ok then None else Some (c @ ''/'' @ p)))"

section \<open>The client state\<close>

type_synonym c_int = "32 word"
type_synonym c_ssize_t = "64 word"

text \<open>
  \<open>file_t\<close>, without the pointer to the inode information. The fields \<open>fd\<close>, \<open>flags\<close>
  and \<open>pos\<close> carry the prefix \<open>f_\<close>.
\<close>

record file_t =
  f_fd :: c_int
  f_flags :: c_int
  f_pos :: "64 word"
  dup_ref :: c_int
  file_type :: c_int

text \<open>
  The fields of \<open>client_info_t\<close> that the functions below read or write. \<open>open_files\<close>
  maps a descriptor to the address of its \<open>file_t\<close> object, which is never \<open>NULL\<close>; the
  locks are left out (the model is sequential). \<open>mount_point\<close> and \<open>ignore_path\<close> are
  set at start-up and are not \<open>NULL\<close>.
\<close>

record client_info_t =
  dup_fds :: "c_int \<rightharpoonup> c_int"
  open_files :: "c_int \<rightharpoonup> nat"
  cwd :: "string option"
  in_cfs :: bool
  mount_point :: string
  ignore_path :: string

text \<open>The global \<open>g_client_info\<close> together with the memory holding the \<open>file_t\<close> objects.\<close>

record state =
  g_client_info :: client_info_t
  file_mem :: "nat \<Rightarrow> file_t"

section \<open>get_cfs_path\<close>

text \<open>
  The tokens that successive calls of \<open>strtok(s, ",")\<close> return: the maximal non-empty
  runs of bytes other than the comma. The second argument is the token being read.
\<close>

fun strtok_all :: "string \<Rightarrow> string \<Rightarrow> string list" where
  "strtok_all [] cur = (if cur = [] then [] else [cur])"
| "strtok_all (c # cs) cur =
     (if c = CHR '','' then (if cur = [] then strtok_all cs [] else cur # strtok_all cs [])
      else strtok_all cs (cur @ [c]))"

text \<open>
  The loop over the tokens of the ignore list; \<open>len\<close> is the length of the mount point
  and the last argument the current value of \<open>is_cfs\<close>.
\<close>

fun token_loop :: "string \<Rightarrow> nat \<Rightarrow> string list \<Rightarrow> bool \<Rightarrow> bool" where
  "token_loop real_path len [] is_cfs = is_cfs"
| "token_loop real_path len (token # rest) is_cfs =
     (let len_token = length token in
      if cget real_path len = CHR ''/'' \<and> strncmp_eq (drop (len + 1) real_path) token len_token \<and>
         (cget real_path (len + 1 + len_token) = CHR 0x00 \<or>
          cget real_path (len + 1 + len_token) = CHR ''/'')
      then False
      else token_loop real_path len rest True)"

text \<open>The value of \<open>is_cfs\<close> after the comparison with the mount point and the ignore list.\<close>

definition is_cfs_of :: "client_info_t \<Rightarrow> string \<Rightarrow> bool" where
  "is_cfs_of g real_path =
     (let len = length (mount_point g) in
      if strncmp_eq real_path (mount_point g) len then
        (if length (ignore_path g) > 0 then
           token_loop real_path len (strtok_all (ignore_path g) []) False
         else cget real_path len = CHR 0x00 \<or> cget real_path len = CHR ''/'')
      else False)"

text \<open>The outcomes of the allocations of one call of \<open>get_cfs_path\<close>, by call site.\<close>

record allocs =
  clean_ok :: bool
  cat_ok :: bool
  strdup_ok :: bool
  result_ok :: bool

definition get_cfs_path :: "client_info_t \<Rightarrow> allocs \<Rightarrow> string option \<Rightarrow> string option" where
  "get_cfs_path g al pathname =
     (case pathname of
        None \<Rightarrow> None
      | Some p \<Rightarrow>
          if cget p 0 \<noteq> CHR ''/'' \<and> \<not> in_cfs g then None
          else
            (case get_clean_path (clean_ok al) (Some p) of
               None \<Rightarrow> None
             | Some real_path \<Rightarrow>
                 if cget p 0 \<noteq> CHR ''/'' \<and> in_cfs g then
                   cat_path (cat_ok al) (cwd g) (Some real_path)
                 else if \<not> strdup_ok al then None
                 else if \<not> is_cfs_of g real_path then None
                 else if \<not> result_ok al then None
                 else
                   (let len = length (mount_point g);
                        len_result = int (length real_path) - int len
                    in if len_result > 0 then Some (take (nat len_result) (drop len real_path))
                       else Some ''/'')))"

section \<open>cfs_errno\<close>

text \<open>
  Both translators take the old value of \<open>errno\<close> and return the result together with
  the new \<open>errno\<close>, which is an \<open>int\<close>: the \<open>ssize_t\<close> value \<open>-re\<close> is cut to 32 bits
  when it is stored. Negation is that of the machine (two's complement), also for the
  most negative value.
\<close>

definition cfs_errno :: "c_int \<Rightarrow> c_int \<Rightarrow> c_int \<times> c_int" where
  "cfs_errno errno re = (if sint re < 0 then (- 1, - re) else (re, 0))"

definition cfs_errno_ssize_t :: "c_int \<Rightarrow> c_ssize_t \<Rightarrow> c_ssize_t \<times> c_int" where
  "cfs_errno_ssize_t errno re = (if sint re < 0 then (- 1, ucast (- re)) else (re, 0))"

section \<open>Descriptors\<close>

definition CFS_FD_MASK :: c_int where
  "CFS_FD_MASK = push_bit (4 * 8 - 2) 1"

definition fd_in_cfs :: "client_info_t \<Rightarrow> c_int \<Rightarrow> bool" where
  "fd_in_cfs g d =
     (if dup_fds g d \<noteq> None then True
      else if d AND CFS_FD_MASK \<noteq> 0 then True
      else False)"

definition get_cfs_fd :: "client_info_t \<Rightarrow> c_int \<Rightarrow> c_int" where
  "get_cfs_fd g d =
     (case dup_fds g d of
        Some second \<Rightarrow> second
      | None \<Rightarrow> if d AND CFS_FD_MASK \<noteq> 0 then d AND NOT CFS_FD_MASK else - 1)"

definition dup_fd :: "state \<Rightarrow> c_int \<Rightarrow> c_int \<Rightarrow> c_int \<times> state" where
  "dup_fd s oldfd newfd =
     (case open_files (g_client_info s) oldfd of
        None \<Rightarrow> (- 1, s)
      | Some a \<Rightarrow>
          (let mem1 = (file_mem s)(a := (file_mem s a)\<lparr>dup_ref := dup_ref (file_mem s a) + 1\<rparr>);
               g1 = (g_client_info s)\<lparr>dup_fds := (dup_fds (g_client_info s))(newfd \<mapsto> oldfd)\<rparr>
           in (newfd, s\<lparr>g_client_info := g1, file_mem := mem1\<rparr>)))"

definition get_open_file :: "state \<Rightarrow> c_int \<Rightarrow> nat option" where
  "get_open_file s d = open_files (g_client_info s) d"

section \<open>cfs_pread_sock\<close>

text \<open>
  Modelled from the spec: the type \<open>cfs_read_req_t\<close> is declared in a header that is not
  among the sources. An extent-location descriptor names a storage node (host and port),
  a partition id (0 for a hole), an extent id, an offset inside the extent, a length and
  a file offset; the length is the field \<open>size\<close> of the code.
\<close>

record cfs_read_req_t =
  file_offset :: int
  req_size :: nat
  partition_id :: nat
  extent_id :: nat
  extent_offset :: nat
  dp_host :: string
  dp_port :: int

text \<open>
  What the collaborators answer during the iteration for one descriptor: whether
  \<open>new_read_packet\<close> returned a packet, and the values returned by \<open>get_conn\<close>,
  \<open>write_sock\<close> and \<open>get_read_reply\<close>.
\<close>

record exchange =
  packet_ok :: bool
  sock_fd :: int
  write_re :: int
  reply_re :: int

text \<open>The calls that \<open>cfs_pread_sock\<close> makes, in order.\<close>

datatype event =
    ReadRequests
  | ZeroFill nat nat
  | NewPacket nat
  | GetConn nat
  | WriteSock nat
  | GetReadReply nat
  | PutConn nat
  | CloseSock nat
  | Pread

text \<open>
  The \<open>for\<close> loop. The arguments are the collaborators' answers by iteration, the
  descriptors \<open>req[i..req_count)\<close> still to visit, \<open>i\<close>, \<open>read\<close> and the calls made so
  far. \<open>read\<close> only grows by descriptor lengths and non-negative replies.
\<close>

fun pread_loop ::
  "(nat \<Rightarrow> exchange) \<Rightarrow> cfs_read_req_t list \<Rightarrow> nat \<Rightarrow> int \<Rightarrow> event list \<Rightarrow> int \<times> event list" where
  "pread_loop env [] i rd tr = (rd, tr)"
| "pread_loop env (q # qs) i rd tr =
     (if req_size q = 0 then (rd, tr)
      else if partition_id q = 0 then
        pread_loop env qs (i + 1) (rd + int (req_size q)) (tr @ [ZeroFill (nat rd) (req_size q)])
      else if \<not> packet_ok (env i) then (rd, tr @ [NewPacket i])
      else if sock_fd (env i) < 0 then (rd, tr @ [NewPacket i, GetConn i])
      else if write_re (env i) < 0 then
        (rd, tr @ [NewPacket i, GetConn i, WriteSock i, CloseSock i])
      else if reply_re (env i) < 0 then
        (rd, tr @ [NewPacket i, GetConn i, WriteSock i, GetReadReply i, CloseSock i])
      else
        (let tr1 = tr @ [NewPacket i, GetConn i, WriteSock i, GetReadReply i, PutConn i];
             rd1 = rd + reply_re (env i)
         in if reply_re (env i) \<noteq> int (req_size q) then (rd1, tr1)
            else pread_loop env qs (i + 1) rd1 tr1))"

text \<open>
  \<open>cfs_pread_sock\<close>: \<open>req_count\<close> and \<open>req\<close> are the result of \<open>cfs_read_requests\<close> and
  the array it filled (at most \<open>max_count\<close> descriptors), \<open>sdk_read\<close> is what
  \<open>cfs_pread\<close> returns when it is called. The result is the returned value and the calls
  made. Byte counts are numbers within the range of \<open>ssize_t\<close>; \<open>read\<close> is never
  negative, so the comparison \<open>read < count\<close>, which C makes on \<open>size_t\<close>, is the
  comparison of the numbers.
\<close>

definition cfs_pread_sock ::
  "int \<Rightarrow> cfs_read_req_t list \<Rightarrow> (nat \<Rightarrow> exchange) \<Rightarrow> int \<Rightarrow> nat \<Rightarrow> int \<times> event list" where
  "cfs_pread_sock req_count req env sdk_read count =
     (let (rd, tr) = pread_loop env (take (nat req_count) req) 0 0 [ReadRequests]
      in if rd < int count then (sdk_read, tr @ [Pread]) else (rd, tr))"

section \<open>Auxiliary notions for the proofs\<close>

text \<open>
  A real path element: a non-empty run of bytes without a slash that is neither \<open>.\<close>
  nor \<open>..\<close>.
\<close>

definition path_elem :: "string \<Rightarrow> bool" where
  "path_elem s \<longleftrightarrow> s \<noteq> [] \<and> CHR ''/'' \<notin> set s \<and> s \<noteq> ''.'' \<and> s \<noteq> ''..''"

text \<open>The output after the separator that precedes a new element, when one is needed.\<close>

definition sep :: "bool \<Rightarrow> string \<Rightarrow> string" where
  "sep rooted out =
     (if rooted \<and> length out \<noteq> 1 \<or> \<not> rooted \<and> length out \<noteq> 0 then out @ ''/'' else out)"

text \<open>
  The pairs of output and \<open>dotdot\<close> that the loop of \<open>get_clean_path\<close> can reach: the
  initial ones, extended by real elements, and for a path that is not rooted by \<open>..\<close>
  elements as long as nothing else has been written.
\<close>

inductive clean_state :: "bool \<Rightarrow> string \<Rightarrow> nat \<Rightarrow> bool" where
  init_rooted: "clean_state True ''/'' 1"
| init_rel: "clean_state False [] 0"
| push: "clean_state rooted out d \<Longrightarrow> path_elem s \<Longrightarrow> clean_state rooted (sep rooted out @ s) d"
| push_dotdot: "clean_state False out d \<Longrightarrow> length out = d \<Longrightarrow>
     clean_state False (sep False out @ ''..'') (length (sep False out @ ''..''))"

text \<open>
  The bound that keeps the output inside a buffer of \<open>n + 1\<close> bytes: the bytes written
  and the bytes still to read are at most \<open>n\<close>, and when they are exactly \<open>n\<close> and the
  next element needs a separator, the input is at a slash or at its end.
\<close>

definition fits :: "nat \<Rightarrow> bool \<Rightarrow> string \<Rightarrow> string \<Rightarrow> bool" where
  "fits n rooted inp out \<longleftrightarrow>
     length out + length inp \<le> n \<and>
     (length out + length inp = n \<and> (rooted \<and> length out \<noteq> 1 \<or> \<not> rooted \<and> length out \<noteq> 0)
        \<longrightarrow> inp = [] \<or> hd inp = CHR ''/'')"

text \<open>
  Modelled from the spec: \<open>record_open_file\<close>, which fills \<open>open_files\<close>, and the callers
  of \<open>dup_fd\<close> are not among the sources. By the spec the caller-visible descriptor of a
  handle is the handle id with the reserved bit set, and a handle id fits below that bit;
  \<open>open_files\<close> is keyed by handle ids, and an alias is registered only for a descriptor
  that has an open handle. So every value of \<open>dup_fds\<close> is a key of \<open>open_files\<close>, and
  no key of \<open>open_files\<close> has the reserved bit set.
\<close>

definition registry_ok :: "client_info_t \<Rightarrow> bool" where
  "registry_ok g \<longleftrightarrow>
     (\<forall>d v. dup_fds g d = Some v \<longrightarrow> open_files g v \<noteq> None) \<and>
     (\<forall>k. open_files g k \<noteq> None \<longrightarrow> k AND CFS_FD_MASK = 0)"

text \<open>Concrete states used to run the functions.\<close>

definition g_example :: client_info_t where
  "g_example = \<lparr>dup_fds = [5 \<mapsto> 3], open_files = [3 \<mapsto> 0],
     cwd = Some ''/a'', in_cfs = True, mount_point = ''/cfs'', ignore_path = ''tmp''\<rparr>"

definition s_example :: state where
  "s_example = \<lparr>g_client_info = g_example,
     file_mem = (\<lambda>a. \<lparr>f_fd = 3, f_flags = 0, f_pos = 0, dup_ref = 1, file_type = 0\<rparr>)\<rparr>"

definition all_ok :: allocs where
  "all_ok = \<lparr>clean_ok = True, cat_ok = True, strdup_ok = True, result_ok = True\<rparr>"

text \<open>
  An exchange that answers a descriptor in full: the descriptor is a non-empty extent and
  not a hole, the packet is built, the connection is acquired, the write succeeds and the
  reply has exactly the descriptor's length.
\<close>

definition exact_exchange :: "exchange \<Rightarrow> cfs_read_req_t \<Rightarrow> bool" where
  "exact_exchange x q \<longleftrightarrow>
     req_size q \<noteq> 0 \<and> partition_id q \<noteq> 0 \<and> packet_ok x \<and> 0 \<le> sock_fd x \<and> 0 \<le> write_re x \<and>
     reply_re x = int (req_size q)"

text \<open>The calls of one completed socket round trip, for iteration \<open>i\<close>.\<close>

definition round_trip :: "nat \<Rightarrow> event list" where
  "round_trip i = [NewPacket i, GetConn i, WriteSock i, GetReadReply i, PutConn i]"

definition req_example :: cfs_read_req_t where
  "req_example = \<lparr>file_offset = 0, req_size = 4096, partition_id = 7, extent_id = 12,
     extent_offset = 0, dp_host = ''10.0.0.1'', dp_port = 17030\<rparr>"

definition env_exact :: "nat \<Rightarrow> exchange" where
  "env_exact i = \<lparr>packet_ok = True, sock_fd = 9, write_re = 57, reply_re = 4096\<rparr>"

definition env_short :: "nat \<Rightarrow> exchange" where
  "env_short i = \<lparr>packet_ok = True, sock_fd = 9, write_re = 57, reply_re = 100\<rparr>"

section \<open>get_clean_path is idempotent\<close>

text \<open>
  One step of the loop on a real element, on \<open>..\<close> where there is nothing to remove,
  and on a slash.
\<close>

lemma takeWhile_elem:
  assumes "CHR ''/'' \<notin> set s" "rest = [] \<or> hd rest = CHR ''/''"
  shows "takeWhile (\<lambda>x. x \<noteq> CHR ''/'') (s @ rest) = s"
    and "dropWhile (\<lambda>x. x \<noteq> CHR ''/'') (s @ rest) = rest"
  using assms by (induction s) (cases rest; auto)+

lemma clean_loop_slash: "clean_loop r (CHR ''/'' # rest) out d = clean_loop r rest out d"
  by (simp add: clean_loop.simps(2))

lemma clean_loop_elem:
  assumes "path_elem s" "rest = [] \<or> hd rest = CHR ''/''"
  shows "clean_loop r (s @ rest) out d = clean_loop r rest (sep r out @ s) d"
proof -
  from assms(1) obtain c cs where s: "s = c # cs"
    by (auto simp: path_elem_def neq_Nil_conv)
  from assms(1) s have c: "c \<noteq> CHR ''/''" and cs: "CHR ''/'' \<notin> set cs"
    by (auto simp: path_elem_def)
  have no_dot: "\<not> (c = CHR ''.'' \<and> (cs @ rest = [] \<or> hd (cs @ rest) = CHR ''/''))"
    using assms(1) s cs by (cases cs) (auto simp: path_elem_def)
  have no_dotdot: "\<not> (c = CHR ''.'' \<and> cs @ rest \<noteq> [] \<and> hd (cs @ rest) = CHR ''.'' \<and>
      (tl (cs @ rest) = [] \<or> hd (tl (cs @ rest)) = CHR ''/''))"
  proof (cases cs)
    case Nil
    with assms(1) s show ?thesis by (auto simp: path_elem_def)
  next
    case (Cons e es)
    with assms(1) s cs show ?thesis by (cases es) (auto simp: path_elem_def)
  qed
  have tw: "takeWhile (\<lambda>x. x \<noteq> CHR ''/'') (c # cs @ rest) = c # cs"
    and dw: "dropWhile (\<lambda>x. x \<noteq> CHR ''/'') (c # cs @ rest) = rest"
    using takeWhile_elem [of "c # cs" rest] c cs assms(2) by auto
  have "clean_loop r (c # cs @ rest) out d = clean_loop r rest (sep r out @ c # cs) d"
    apply (subst clean_loop.simps(2))
    apply (simp only: c no_dot no_dotdot if_False Let_def tw dw sep_def)
    done
  then show ?thesis by (simp add: s)
qed

lemma clean_loop_dotdot:
  assumes "length out \<le> d" "rest = [] \<or> hd rest = CHR ''/''"
  shows "clean_loop False (''..'' @ rest) out d =
         clean_loop False rest (sep False out @ ''..'') (length (sep False out @ ''..''))"
  using assms
  by (simp add: clean_loop.simps(2) [of _ "CHR ''.''"] sep_def Let_def)

text \<open>Facts about the reachable outputs.\<close>

lemma clean_state_dotdot_le: "clean_state r out d \<Longrightarrow> d \<le> length out"
  by (induction rule: clean_state.induct) (auto simp: sep_def)

lemma clean_state_rooted: "clean_state r out d \<Longrightarrow> r \<Longrightarrow> d = 1 \<and> out \<noteq> [] \<and> hd out = CHR ''/''"
  by (induction rule: clean_state.induct) (auto simp: sep_def)

lemma clean_state_rel: "clean_state r out d \<Longrightarrow> \<not> r \<Longrightarrow> out \<noteq> [] \<Longrightarrow> hd out \<noteq> CHR ''/''"
  by (induction rule: clean_state.induct) (auto simp: sep_def path_elem_def hd_append dest: hd_in_set)

lemma clean_state_last:
  "clean_state r out d \<Longrightarrow> out = ''/'' \<or> out = [] \<or> last out \<noteq> CHR ''/''"
  by (induction rule: clean_state.induct) (auto simp: sep_def path_elem_def dest: last_in_set)

text \<open>
  The inner loop of the \<open>..\<close> case stops at the separator before the last element, or
  at \<open>dotdot\<close>: it removes exactly the last element.
\<close>

lemma backtrack_to:
  assumes "k \<le> w" "d \<le> k" "\<forall>i. k < i \<and> i \<le> w \<longrightarrow> b ! i \<noteq> CHR ''/''"
    and "k = d \<or> b ! k = CHR ''/''"
  shows "backtrack b w d = k"
  using assms
proof (induction w)
  case 0
  then show ?case by simp
next
  case (Suc w)
  show ?case
  proof (cases "k = Suc w")
    case True
    with Suc.prems show ?thesis by auto
  next
    case False
    with Suc.prems have "k \<le> w" "d < Suc w" "b ! Suc w \<noteq> CHR ''/''" by auto
    moreover from this Suc have "backtrack b w d = k" by auto
    ultimately show ?thesis by simp
  qed
qed

lemma backtrack_sep:
  assumes "CHR ''/'' \<notin> set s" "d \<le> length out" "s \<noteq> []"
  shows "take (backtrack (out @ ''/'' @ s) (length (out @ ''/'' @ s) - 1) d) (out @ ''/'' @ s) = out"
proof -
  have "\<forall>i. length out < i \<and> i \<le> length out + length s \<longrightarrow> (out @ ''/'' @ s) ! i \<noteq> CHR ''/''"
  proof (intro allI impI)
    fix i assume i: "length out < i \<and> i \<le> length out + length s"
    then have "(out @ ''/'' @ s) ! i = s ! (i - length out - 1)"
      by (auto simp: nth_append nth_Cons')
    moreover from i have "s ! (i - length out - 1) \<in> set s" by auto
    ultimately show "(out @ ''/'' @ s) ! i \<noteq> CHR ''/''" using assms(1) by metis
  qed
  then have "backtrack (out @ ''/'' @ s) (length out + length s) d = length out"
    using assms(2) by (intro backtrack_to) auto
  then show ?thesis by simp
qed

lemma backtrack_nosep:
  assumes "CHR ''/'' \<notin> set s" "d = length out" "s \<noteq> []"
  shows "take (backtrack (out @ s) (length (out @ s) - 1) d) (out @ s) = out"
proof -
  have "\<forall>i. length out < i \<and> i \<le> length out + length s - 1 \<longrightarrow> (out @ s) ! i \<noteq> CHR ''/''"
  proof (intro allI impI)
    fix i assume i: "length out < i \<and> i \<le> length out + length s - 1"
    then have "(out @ s) ! i = s ! (i - length out)"
      by (auto simp: nth_append)
    moreover from i assms(3) have "s ! (i - length out) \<in> set s" by (cases s) auto
    ultimately show "(out @ s) ! i \<noteq> CHR ''/''" using assms(1) by metis
  qed
  moreover have "length out \<le> length out + length s - 1" using assms(3) by (cases s) auto
  ultimately have "backtrack (out @ s) (length out + length s - 1) d = length out"
    using assms(2) by (intro backtrack_to) auto
  then show ?thesis by simp
qed

lemma clean_state_backtrack:
  assumes "clean_state r out d" "d < length out"
  shows "clean_state r (take (backtrack out (length out - 1) d) out) d"
  using assms
proof (cases rule: clean_state.cases)
  case (push out0 s)
  have le: "d \<le> length out0" using push by (simp add: clean_state_dotdot_le)
  have s: "CHR ''/'' \<notin> set s" "s \<noteq> []" using push by (auto simp: path_elem_def)
  show ?thesis
  proof (cases "r \<and> length out0 \<noteq> 1 \<or> \<not> r \<and> length out0 \<noteq> 0")
    case False
    then have eq: "sep r out0 = out0"
      unfolding sep_def by (rule if_not_P)
    from False have "d = length out0"
      using clean_state_rooted [OF push(2)] le by auto
    then show ?thesis using backtrack_nosep [OF s(1) _ s(2), of d out0] push eq by simp
  next
    case True
    then have "sep r out0 = out0 @ ''/''"
      unfolding sep_def by (rule if_P)
    then show ?thesis using backtrack_sep [OF s(1) le s(2)] push by simp
  qed
qed (auto simp: sep_def)

text \<open>Every branch of the loop keeps the output among the reachable ones.\<close>

lemma takeWhile_is_elem:
  assumes "c \<noteq> CHR ''/''" "\<not> (c = CHR ''.'' \<and> (cs = [] \<or> hd cs = CHR ''/''))"
    and "\<not> (c = CHR ''.'' \<and> cs \<noteq> [] \<and> hd cs = CHR ''.'' \<and> (tl cs = [] \<or> hd (tl cs) = CHR ''/''))"
  shows "path_elem (takeWhile (\<lambda>x. x \<noteq> CHR ''/'') (c # cs))"
proof -
  define t where "t = takeWhile (\<lambda>x. x \<noteq> CHR ''/'') cs"
  have "CHR ''/'' \<notin> set t" unfolding t_def using set_takeWhileD by fastforce
  moreover have "c # t \<noteq> ''.''"
    unfolding t_def using assms(1,2) by (cases cs) (auto split: if_splits)
  moreover have "c # t \<noteq> ''..''"
  proof (cases cs)
    case Nil
    then show ?thesis by (simp add: t_def)
  next
    case (Cons e es)
    with assms(1,3) show ?thesis unfolding t_def by (cases es) (auto split: if_splits)
  qed
  ultimately have "path_elem (c # t)" using assms(1) by (simp add: path_elem_def)
  then show ?thesis using assms(1) by (simp add: t_def)
qed

lemma clean_loop_invariant:
  "clean_state r out d \<Longrightarrow> \<exists>d'. clean_state r (clean_loop r inp out d) d'"
proof (induction r inp out d rule: clean_loop.induct)
  case (1 rooted out dotdot)
  then show ?case by auto
next
  case (2 rooted c cs out dotdot)
  note st = \<open>clean_state rooted out dotdot\<close>
  show ?case
  proof (cases "c = CHR ''/''")
    case True
    then show ?thesis using "2.IH"(1) st by (simp add: clean_loop.simps(2))
  next
    case c: False
    show ?thesis
    proof (cases "c = CHR ''.'' \<and> (cs = [] \<or> hd cs = CHR ''/'')")
      case True
      then show ?thesis using "2.IH"(2) [OF c] st by (simp add: clean_loop.simps(2))
    next
      case nd: False
      show ?thesis
      proof (cases "c = CHR ''.'' \<and> cs \<noteq> [] \<and> hd cs = CHR ''.'' \<and> (tl cs = [] \<or> hd (tl cs) = CHR ''/'')")
        case dd: True
        show ?thesis
        proof (cases "dotdot < length out")
          case True
          have "clean_state rooted (take (backtrack out (length out - 1) dotdot) out) dotdot"
            using st True by (rule clean_state_backtrack)
          from "2.IH"(3) [OF c nd dd True this] show ?thesis
            using c nd dd True by (simp add: clean_loop.simps(2))
        next
          case w: False
          show ?thesis
          proof (cases rooted)
            case True
            then show ?thesis using "2.IH"(5) [OF c nd dd w] st c nd dd w
              by (simp add: clean_loop.simps(2))
          next
            case False
            define x where "x = (if 0 < length out then out @ ''/'' else out) @ ''..''"
            have len: "length out = dotdot"
              using w clean_state_dotdot_le [OF st] by simp
            have "x = sep False out @ ''..''" by (simp add: x_def sep_def)
            then have "clean_state rooted x (length x)"
              using clean_state.push_dotdot [of out dotdot] st len False by simp
            from "2.IH"(4) [OF c nd dd w _ x_def this] False show ?thesis
              using c nd dd w by (simp add: clean_loop.simps(2) Let_def x_def)
          qed
        qed
      next
        case ndd: False
        define x where "x = (if rooted \<and> length out \<noteq> 1 \<or> \<not> rooted \<and> length out \<noteq> 0
           then out @ ''/'' else out)"
        have "x = sep rooted out" by (simp add: x_def sep_def)
        then have "clean_state rooted (x @ takeWhile (\<lambda>x. x \<noteq> CHR ''/'') (c # cs)) dotdot"
          using clean_state.push [OF st takeWhile_is_elem [OF c nd ndd]] by simp
        from "2.IH"(6) [OF c nd ndd x_def this] show ?thesis
          apply (subst clean_loop.simps(2))
          apply (simp only: c nd ndd if_False Let_def x_def)
          done
      qed
    qed
  qed
qed


text \<open>
  The loop run on a reachable output, from the initial state, rebuilds that output; this
  is the heart of idempotence.
\<close>

lemma clean_loop_replay:
  assumes "clean_state r out d" "rest = [] \<or> hd rest = CHR ''/''"
  shows "clean_loop r ((if r then tl out else out) @ rest) (if r then ''/'' else [])
           (if r then 1 else 0) = clean_loop r rest out d"
  using assms
proof (induction arbitrary: rest rule: clean_state.induct)
  case init_rooted
  then show ?case by simp
next
  case init_rel
  then show ?case by simp
next
  case (push rooted out d s)
  have ne: "rooted \<Longrightarrow> out \<noteq> []" using clean_state_rooted [OF push.hyps(1)] by simp
  show ?case
  proof (cases "rooted \<and> length out \<noteq> 1 \<or> \<not> rooted \<and> length out \<noteq> 0")
    case True
    then have sep: "sep rooted out = out @ ''/''"
      unfolding sep_def by (rule if_P)
    have "(if rooted then tl (sep rooted out @ s) else sep rooted out @ s) @ rest
            = (if rooted then tl out else out) @ (CHR ''/'' # s @ rest)"
      using ne sep by (cases rooted) simp_all
    then have "clean_loop rooted ((if rooted then tl (sep rooted out @ s) else sep rooted out @ s) @ rest)
        (if rooted then ''/'' else []) (if rooted then 1 else 0) = clean_loop rooted (CHR ''/'' # s @ rest) out d"
      using push.IH [of "CHR ''/'' # s @ rest"] by simp
    also have "\<dots> = clean_loop rooted (s @ rest) out d" by (rule clean_loop_slash)
    also have "\<dots> = clean_loop rooted rest (sep rooted out @ s) d"
      using push.hyps(2) push.prems by (rule clean_loop_elem)
    finally show ?thesis .
  next
    case False
    then have sep: "sep rooted out = out"
      unfolding sep_def by (rule if_not_P)
    have init: "out = (if rooted then ''/'' else [])" "d = (if rooted then 1 else 0)"
      using False clean_state_rooted [OF push.hyps(1)] clean_state_dotdot_le [OF push.hyps(1)]
      by (cases out; auto)+
    have "(if rooted then tl (sep rooted out @ s) else sep rooted out @ s) @ rest = s @ rest"
      using init by (cases rooted) (simp_all add: sep_def)
    then have "clean_loop rooted ((if rooted then tl (sep rooted out @ s) else sep rooted out @ s) @ rest)
        (if rooted then ''/'' else []) (if rooted then 1 else 0) = clean_loop rooted (s @ rest) out d"
      using init by simp
    also have "\<dots> = clean_loop rooted rest (sep rooted out @ s) d"
      using push.hyps(2) push.prems by (rule clean_loop_elem)
    finally show ?thesis .
  qed
next
  case (push_dotdot out d)
  show ?case
  proof (cases "out = []")
    case True
    then have "d = 0" using push_dotdot.hyps by simp
    then show ?thesis
      using clean_loop_dotdot [of "[]" 0 rest] push_dotdot.prems True by (simp add: sep_def)
  next
    case False
    then have sep: "sep False out = out @ ''/''" by (simp add: sep_def)
    have "clean_loop False (out @ CHR ''/'' # ''..'' @ rest) [] 0
            = clean_loop False (CHR ''/'' # ''..'' @ rest) out d"
      using push_dotdot.IH [of "CHR ''/'' # ''..'' @ rest"] by simp
    also have "\<dots> = clean_loop False (''..'' @ rest) out d" by (rule clean_loop_slash)
    also have "\<dots> = clean_loop False rest (sep False out @ ''..'') (length (sep False out @ ''..''))"
      using push_dotdot.hyps(2) push_dotdot.prems by (intro clean_loop_dotdot) simp_all
    finally show ?thesis by (simp add: sep)
  qed
qed

lemma clean_buf_rooted:
  assumes "cget p 0 = CHR ''/''"
  shows "\<exists>d. clean_state True (clean_buf p) d"
proof -
  obtain d where "clean_state True (clean_loop True (tl p) ''/'' 1) d"
    using clean_loop_invariant [OF clean_state.init_rooted] by blast
  moreover from this have "clean_loop True (tl p) ''/'' 1 \<noteq> []"
    using clean_state_rooted by blast
  ultimately show ?thesis using assms by (auto simp: clean_buf_def)
qed

lemma clean_buf_rel:
  assumes "cget p 0 \<noteq> CHR ''/''"
  shows "clean_buf p = ''.'' \<and> clean_loop False p [] 0 = [] \<or>
         clean_buf p \<noteq> [] \<and> (\<exists>d. clean_state False (clean_buf p) d)"
proof -
  obtain d where "clean_state False (clean_loop False p [] 0) d"
    using clean_loop_invariant [OF clean_state.init_rel] by blast
  then show ?thesis using assms by (auto simp: clean_buf_def Let_def)
qed

lemma clean_buf_dot: "clean_buf ''.'' = ''.''"
  by (simp add: clean_buf_def cget_def clean_loop.simps(2))

lemma clean_buf_idem: "clean_buf (clean_buf p) = clean_buf p"
proof (cases "cget p 0 = CHR ''/''")
  case True
  then obtain d where st: "clean_state True (clean_buf p) d"
    using clean_buf_rooted by blast
  then have hd: "clean_buf p \<noteq> []" "hd (clean_buf p) = CHR ''/''"
    using clean_state_rooted by blast+
  then have "cget (clean_buf p) 0 = CHR ''/''"
    by (cases "clean_buf p") (auto simp: cget_def)
  moreover have "clean_loop True (tl (clean_buf p)) ''/'' 1 = clean_buf p"
    using clean_loop_replay [OF st, of "[]"] by simp
  ultimately show ?thesis using hd
    by (simp add: clean_buf_def [of "clean_buf p"])
next
  case False
  from clean_buf_rel [OF this] show ?thesis
  proof
    assume "clean_buf p = ''.'' \<and> clean_loop False p [] 0 = []"
    then show ?thesis by (simp add: clean_buf_dot)
  next
    assume a: "clean_buf p \<noteq> [] \<and> (\<exists>d. clean_state False (clean_buf p) d)"
    then obtain d where st: "clean_state False (clean_buf p) d" by blast
    from a have ne: "clean_buf p \<noteq> []" by simp
    have "hd (clean_buf p) \<noteq> CHR ''/''"
      using clean_state_rel [OF st] ne by simp
    then have "cget (clean_buf p) 0 \<noteq> CHR ''/''"
      using ne by (cases "clean_buf p") (auto simp: cget_def)
    moreover have "clean_loop False (clean_buf p) [] 0 = clean_buf p"
      using clean_loop_replay [OF st, of "[]"] by simp
    ultimately show ?thesis using ne
      by (simp add: clean_buf_def [of "clean_buf p"])
  qed
qed

lemma clean_buf_nonempty: "clean_buf p \<noteq> []"
  using clean_buf_rooted [of p] clean_buf_rel [of p] clean_state_rooted
  by (cases "cget p 0 = CHR ''/''") auto

lemma clean_buf_no_trailing: "clean_buf p \<noteq> ''/'' \<Longrightarrow> last (clean_buf p) \<noteq> CHR ''/''"
  using clean_buf_rooted [of p] clean_buf_rel [of p] clean_state_last [of _ "clean_buf p"] clean_buf_nonempty [of p]
  by (cases "cget p 0 = CHR ''/''") auto

lemma clean_buf_ex1: "clean_buf ''a//b/../.././x/'' = ''x''"
  by code_simp

lemma clean_buf_ex3: "clean_buf ''a/..'' = ''.''"
  by code_simp

lemma clean_loop_ex3: "clean_loop False ''a/..'' [] 0 = []"
  by code_simp

section \<open>The cleaned path fits its buffer\<close>

text \<open>
  For a non-empty path of \<open>n\<close> bytes the loop writes at most \<open>n\<close> bytes, so that they
  and the terminator fit the \<open>n + 1\<close> bytes allocated. The empty path gets a buffer of one
  byte, and the result \<open>.\<close> has one byte before the terminator: the terminator is stored
  at index 1, outside the buffer. The empty path is the only one for which this happens.
\<close>

lemma length_take_drop_while:
  "length (takeWhile P xs) + length (dropWhile P xs) = length xs"
  by (metis length_append takeWhile_dropWhile_id)

lemma dropWhile_slash_hd:
  "dropWhile (\<lambda>x. x \<noteq> CHR ''/'') xs = [] \<or> hd (dropWhile (\<lambda>x. x \<noteq> CHR ''/'') xs) = CHR ''/''"
  using hd_dropWhile [of "\<lambda>x. x \<noteq> CHR ''/''" xs] by auto

lemma clean_loop_fits:
  "fits n r inp out \<Longrightarrow> length (clean_loop r inp out d) \<le> n"
proof (induction r inp out d rule: clean_loop.induct)
  case (1 rooted out dotdot)
  then show ?case by (simp add: fits_def)
next
  case (2 rooted c cs out dotdot)
  note f = \<open>fits n rooted (c # cs) out\<close>
  show ?case
  proof (cases "c = CHR ''/''")
    case True
    have "fits n rooted cs out" using f by (auto simp: fits_def)
    then show ?thesis using "2.IH"(1) True by (simp add: clean_loop.simps(2))
  next
    case c: False
    show ?thesis
    proof (cases "c = CHR ''.'' \<and> (cs = [] \<or> hd cs = CHR ''/'')")
      case True
      have "fits n rooted cs out" using f by (auto simp: fits_def)
      then show ?thesis using "2.IH"(2) [OF c] True by (simp add: clean_loop.simps(2))
    next
      case nd: False
      show ?thesis
      proof (cases "c = CHR ''.'' \<and> cs \<noteq> [] \<and> hd cs = CHR ''.'' \<and> (tl cs = [] \<or> hd (tl cs) = CHR ''/'')")
        case dd: True
        then have len: "length (tl cs) + 2 = length (c # cs)" by (cases cs) auto
        show ?thesis
        proof (cases "dotdot < length out")
          case True
          have "fits n rooted (tl cs) (take (backtrack out (length out - 1) dotdot) out)"
            using f len dd by (auto simp: fits_def)
          from "2.IH"(3) [OF c nd dd True this] show ?thesis
            using c nd dd True by (simp add: clean_loop.simps(2))
        next
          case w: False
          show ?thesis
          proof (cases rooted)
            case True
            have "fits n rooted (tl cs) out" using f len dd by (auto simp: fits_def)
            then show ?thesis using "2.IH"(5) [OF c nd dd w] True c nd dd w
              by (simp add: clean_loop.simps(2))
          next
            case False
            define x where "x = (if 0 < length out then out @ ''/'' else out) @ ''..''"
            from dd obtain es where es: "cs = CHR ''.'' # es" "es = [] \<or> hd es = CHR ''/''"
              by (cases cs) auto
            have "fits n rooted (tl cs) x"
              using f es dd False by (auto simp: fits_def x_def)
            from "2.IH"(4) [OF c nd dd w False x_def this] False show ?thesis
              using c nd dd w by (simp add: clean_loop.simps(2) Let_def x_def)
          qed
        qed
      next
        case ndd: False
        define x where "x = (if rooted \<and> length out \<noteq> 1 \<or> \<not> rooted \<and> length out \<noteq> 0
           then out @ ''/'' else out)"
        define t where "t = takeWhile (\<lambda>x. x \<noteq> CHR ''/'') (c # cs)"
        define u where "u = dropWhile (\<lambda>x. x \<noteq> CHR ''/'') (c # cs)"
        have tu: "length t + length u = length (c # cs)"
          unfolding t_def u_def by (rule length_take_drop_while)
        have u: "u = [] \<or> hd u = CHR ''/''"
          unfolding u_def by (rule dropWhile_slash_hd)
        have x: "length x + length (c # cs) \<le> n"
          using f c by (auto simp: fits_def x_def)
        have "fits n rooted u (x @ t)"
          using x tu u by (simp add: fits_def)
        moreover have "clean_loop rooted (c # cs) out dotdot = clean_loop rooted u (x @ t) dotdot"
          unfolding t_def u_def
          by (subst clean_loop.simps(2)) (simp only: c nd ndd if_False Let_def x_def)
        ultimately show ?thesis
          using "2.IH"(6) [OF c nd ndd x_def] by (simp add: t_def u_def)
      qed
    qed
  qed
qed

lemma clean_buf_fits: "p \<noteq> [] \<Longrightarrow> length (clean_buf p) \<le> length p"
proof -
  assume p: "p \<noteq> []"
  have "length (clean_loop False p [] 0) \<le> length p"
    by (rule clean_loop_fits) (simp add: fits_def)
  moreover have "cget p 0 = CHR ''/'' \<Longrightarrow> length (clean_loop True (tl p) ''/'' 1) \<le> length p"
    using p by (intro clean_loop_fits) (cases p, auto simp: fits_def)
  ultimately show ?thesis using p
    by (cases p) (auto simp: clean_buf_def Let_def)
qed

lemma clean_buf_empty: "clean_buf [] = ''.''"
  by (simp add: clean_buf_def cget_def)

lemma out_overflow_iff: "out_overflow p \<longleftrightarrow> p = []"
  using clean_buf_fits [of p] clean_buf_empty
  by (cases "p = []") (auto simp: out_overflow_def out_size_def terminator_index_def)

section \<open>The claim on get_clean_path\<close>

text \<open>
  C4. The claim is made for every path, and the comment of \<open>get_clean_path\<close> promises
  \<open>.\<close> for an empty result. For the empty path the code allocates one byte, stores
  \<open>.\<close> at index 0 and the terminator at index 1, outside the buffer.
\<close>

theorem get_clean_path_empty_overflow:
  "clean_buf [] = ''.'' \<and> out_size [] = 1 \<and> terminator_index [] = 1 \<and> out_overflow []"
  by (simp add: clean_buf_empty out_overflow_def out_size_def terminator_index_def)

text \<open>
  For every other path the stores stay inside the buffer and the claim holds: when its
  allocation succeeds, \<open>get_clean_path\<close> applied to its own result returns that result
  again; the result is not empty, it ends in a slash only when it is the root \<open>/\<close>, and
  it is \<open>.\<close> when the loop has written nothing.
\<close>

theorem get_clean_path_idempotent:
  "p \<noteq> [] \<Longrightarrow>
   \<not> out_overflow p
   \<and> get_clean_path True (get_clean_path True (Some p)) = get_clean_path True (Some p)
   \<and> get_clean_path True (Some p) = Some (clean_buf p)
   \<and> clean_buf (clean_buf p) = clean_buf p
   \<and> clean_buf p \<noteq> [] \<and> \<not> out_overflow (clean_buf p)
   \<and> (clean_buf p \<noteq> ''/'' \<longrightarrow> last (clean_buf p) \<noteq> CHR ''/'')
   \<and> ((if cget p 0 = CHR ''/'' then clean_loop True (tl p) ''/'' 1 else clean_loop False p [] 0) = []
        \<longrightarrow> clean_buf p = ''.'')"
  using clean_buf_idem [of p] clean_buf_nonempty [of p] clean_buf_no_trailing [of p]
  by (simp add: get_clean_path_def clean_buf_def out_overflow_iff)

theorem get_clean_path_idempotent_witness:
  "get_clean_path True (Some ''a//b/../.././x/'') = Some ''x''
   \<and> get_clean_path True (get_clean_path True (Some ''a//b/../.././x/'')) = Some ''x''
   \<and> ''x'' \<noteq> ''/'' \<and> last ''x'' \<noteq> CHR ''/''
   \<and> clean_loop False ''a/..'' [] 0 = [] \<and> clean_buf ''a/..'' = ''.''"
proof -
  have ne: "''a//b/../.././x/'' \<noteq> []" "''a/..'' \<noteq> []"
    by simp_all
  note t1 = get_clean_path_idempotent [OF ne(1)]
  note t2 = get_clean_path_idempotent [OF ne(2)]
  from t1 have "get_clean_path True (get_clean_path True (Some ''a//b/../.././x/''))
          = get_clean_path True (Some ''a//b/../.././x/'')"
    and "get_clean_path True (Some ''a//b/../.././x/'') = Some (clean_buf ''a//b/../.././x/'')"
    and "clean_buf ''a//b/../.././x/'' \<noteq> ''/'' \<longrightarrow> last (clean_buf ''a//b/../.././x/'') \<noteq> CHR ''/''"
    by blast+
  moreover from t2 have "(if cget ''a/..'' 0 = CHR ''/'' then clean_loop True (tl ''a/..'') ''/'' 1
      else clean_loop False ''a/..'' [] 0) = [] \<longrightarrow> clean_buf ''a/..'' = ''.''"
    by blast
  then have "clean_loop False ''a/..'' [] 0 = [] \<longrightarrow> clean_buf ''a/..'' = ''.''"
    by (simp add: cget_def)
  ultimately show ?thesis
    by (simp add: clean_buf_ex1 clean_loop_ex3)
qed

section \<open>Classification of paths\<close>

text \<open>Cleaning a path without a NUL byte gives a path without one.\<close>

lemma clean_loop_nul:
  "CHR 0x00 \<notin> set inp \<Longrightarrow> CHR 0x00 \<notin> set out \<Longrightarrow> CHR 0x00 \<notin> set (clean_loop r inp out d)"
proof (induction r inp out d rule: clean_loop.induct)
  case (1 rooted out dotdot)
  then show ?case by simp
next
  case (2 rooted c cs out dotdot)
  have tl: "CHR 0x00 \<notin> set (tl cs)" using "2.prems"(1) by (cases cs) auto
  have cs: "CHR 0x00 \<notin> set cs" using "2.prems"(1) by auto
  have tk: "CHR 0x00 \<notin> set (take n out)" for n using "2.prems"(2) by (auto dest: in_set_takeD)
  have tw: "CHR 0x00 \<notin> set (takeWhile (\<lambda>x. x \<noteq> CHR ''/'') (c # cs))"
    using "2.prems"(1) by (auto dest: set_takeWhileD)
  have dw: "CHR 0x00 \<notin> set (dropWhile (\<lambda>x. x \<noteq> CHR ''/'') (c # cs))"
    using "2.prems"(1) by (auto dest: set_dropWhileD)
  note out = "2.prems"(2)
  show ?case
  proof (cases "c = CHR ''/''")
    case True
    then show ?thesis using "2.IH"(1) cs out by (simp add: clean_loop.simps(2))
  next
    case c: False
    show ?thesis
    proof (cases "c = CHR ''.'' \<and> (cs = [] \<or> hd cs = CHR ''/'')")
      case True
      then show ?thesis using "2.IH"(2) [OF c] cs out by (simp add: clean_loop.simps(2))
    next
      case nd: False
      show ?thesis
      proof (cases "c = CHR ''.'' \<and> cs \<noteq> [] \<and> hd cs = CHR ''.'' \<and> (tl cs = [] \<or> hd (tl cs) = CHR ''/'')")
        case dd: True
        show ?thesis
        proof (cases "dotdot < length out")
          case True
          from "2.IH"(3) [OF c nd dd True tl tk] show ?thesis
            using c nd dd True by (simp add: clean_loop.simps(2))
        next
          case w: False
          show ?thesis
          proof (cases rooted)
            case True
            then show ?thesis using "2.IH"(5) [OF c nd dd w _ tl out] c nd dd w
              by (simp add: clean_loop.simps(2))
          next
            case False
            define x where "x = (if 0 < length out then out @ ''/'' else out) @ ''..''"
            have "CHR 0x00 \<notin> set x" using out by (simp add: x_def)
            from "2.IH"(4) [OF c nd dd w False x_def tl this] False show ?thesis
              using c nd dd w by (simp add: clean_loop.simps(2) Let_def x_def)
          qed
        qed
      next
        case ndd: False
        define x where "x = (if rooted \<and> length out \<noteq> 1 \<or> \<not> rooted \<and> length out \<noteq> 0
           then out @ ''/'' else out)"
        have "CHR 0x00 \<notin> set (x @ takeWhile (\<lambda>x. x \<noteq> CHR ''/'') (c # cs))"
          using out tw by (simp add: x_def del: takeWhile.simps)
        moreover have "clean_loop rooted (c # cs) out dotdot =
            clean_loop rooted (dropWhile (\<lambda>x. x \<noteq> CHR ''/'') (c # cs))
              (x @ takeWhile (\<lambda>x. x \<noteq> CHR ''/'') (c # cs)) dotdot"
          by (subst clean_loop.simps(2)) (simp only: c nd ndd if_False Let_def x_def)
        ultimately show ?thesis
          using "2.IH"(6) [OF c nd ndd x_def dw] by simp
      qed
    qed
  qed
qed

lemma clean_buf_nul: "CHR 0x00 \<notin> set p \<Longrightarrow> CHR 0x00 \<notin> set (clean_buf p)"
  using clean_loop_nul [of "tl p" "''/''" True 1] clean_loop_nul [of p "[]" False 0]
  by (cases p) (auto simp: clean_buf_def Let_def)

lemma cget_boundary:
  assumes "CHR 0x00 \<notin> set rp" "take (length m) rp = m"
  shows "(cget rp (length m) = CHR 0x00 \<or> cget rp (length m) = CHR ''/'') \<longleftrightarrow>
         (rp = m \<or> take (length m + 1) rp = m @ ''/'')"
proof (cases "length rp = length m")
  case True
  with assms(2) have "rp = m" by simp
  then show ?thesis by (simp add: cget_def)
next
  case False
  have "length m \<le> length rp" using assms(2) by (metis length_take min.cobounded1)
  with False have lt: "length m < length rp" by simp
  then have nth: "rp ! length m \<in> set rp" by simp
  have "take (length m + 1) rp = m @ [rp ! length m]"
    using take_Suc_conv_app_nth [OF lt] assms(2) by simp
  moreover have "rp \<noteq> m" using False by auto
  moreover have "rp ! length m \<noteq> CHR 0x00" using nth assms(1) by metis
  ultimately show ?thesis using lt by (simp add: cget_def)
qed

text \<open>
  With an empty ignore list, an absolute path is remote exactly when its cleaned form is
  the mount point or starts with the mount point followed by a slash.
\<close>

lemma get_cfs_path_empty_ignore:
  assumes "cget p 0 = CHR ''/''" "ignore_path g = []" "CHR 0x00 \<notin> set p"
  shows "get_cfs_path g all_ok (Some p) =
     (if clean_buf p = mount_point g then Some ''/''
      else if take (length (mount_point g) + 1) (clean_buf p) = mount_point g @ ''/''
      then Some (drop (length (mount_point g)) (clean_buf p))
      else None)"
proof -
  define rp where "rp = clean_buf p"
  define m where "m = mount_point g"
  have nul: "CHR 0x00 \<notin> set rp" unfolding rp_def using assms(3) by (rule clean_buf_nul)
  have res: "get_cfs_path g all_ok (Some p) =
      (if \<not> is_cfs_of g rp then None
       else if int (length rp) - int (length m) > 0
       then Some (take (nat (int (length rp) - int (length m))) (drop (length m) rp))
       else Some ''/'')"
    using assms(1) by (simp add: get_cfs_path_def get_clean_path_def all_ok_def rp_def m_def Let_def)
  show ?thesis
  proof (cases "take (length m) rp = m")
    case False
    then have "\<not> is_cfs_of g rp"
      by (simp add: is_cfs_of_def strncmp_eq_def m_def)
    moreover have "rp \<noteq> m" using False by auto
    moreover have "take (length m + 1) rp \<noteq> m @ ''/''"
    proof
      assume "take (length m + 1) rp = m @ ''/''"
      then have "take (length m) (take (length m + 1) rp) = m" by simp
      then show False using False by (simp add: min_def)
    qed
    ultimately show ?thesis using res by (simp add: rp_def m_def)
  next
    case True
    then have cfs: "is_cfs_of g rp \<longleftrightarrow> rp = m \<or> take (length m + 1) rp = m @ ''/''"
      using cget_boundary [OF nul True] assms(2)
      by (simp add: is_cfs_of_def strncmp_eq_def m_def)
    show ?thesis
    proof (cases "rp = m")
      case True
      then show ?thesis using res cfs by (simp add: rp_def m_def)
    next
      case ne: False
      show ?thesis
      proof (cases "take (length m + 1) rp = m @ ''/''")
        case False
        then show ?thesis using res cfs ne by (simp add: rp_def m_def)
      next
        case t: True
        then have "length m < length rp"
          by (metis Suc_eq_plus1 length_append_singleton length_take less_Suc_eq_le min.cobounded1 not_less)
        then show ?thesis using res cfs ne t unfolding rp_def m_def by simp
      qed
    qed
  qed
qed

text \<open>
  With an ignore list that has a token, the byte after the mount point is looked at only
  to match a token: a cleaned path that starts with the bytes of the mount point and goes
  on with a byte other than a slash is remote.
\<close>

lemma token_loop_no_slash:
  "cget rp len \<noteq> CHR ''/'' \<Longrightarrow> token_loop rp len ts b \<longleftrightarrow> ts \<noteq> [] \<or> b"
  by (induction ts arbitrary: b) (simp_all add: Let_def)

lemma get_cfs_path_ignore_no_boundary:
  assumes "cget p 0 = CHR ''/''" "strtok_all (ignore_path g) [] \<noteq> []"
    and "take (length (mount_point g)) (clean_buf p) = mount_point g"
    and "length (mount_point g) < length (clean_buf p)"
    and "clean_buf p ! length (mount_point g) \<noteq> CHR ''/''"
  shows "get_cfs_path g all_ok (Some p) = Some (drop (length (mount_point g)) (clean_buf p))"
proof -
  have "ignore_path g \<noteq> []" using assms(2) by auto
  moreover have "cget (clean_buf p) (length (mount_point g)) \<noteq> CHR ''/''"
    using assms(4,5) by (simp add: cget_def)
  ultimately have "is_cfs_of g (clean_buf p)"
    using assms(2,3) token_loop_no_slash by (simp add: is_cfs_of_def strncmp_eq_def)
  then show ?thesis
    using assms(1,4) by (simp add: get_cfs_path_def get_clean_path_def all_ok_def Let_def)
qed

text \<open>
  C1. The claim asks that a path of which the mount point is a prefix not followed by a
  separator be local, whatever the ignore list. With mount point \<open>/cfs\<close> and ignore list
  \<open>tmp\<close>, the code classifies \<open>/cfsfoo\<close> as remote and returns \<open>foo\<close>.
\<close>

theorem get_cfs_path_prefix_not_bounded:
  "get_cfs_path g_example all_ok (Some ''/cfsfoo'') = Some ''foo''"
  by code_simp

text \<open>
  C10. A \<open>NULL\<close> pathname is local, and so is every pathname that does not begin with a
  slash while the working directory is outside the remote scope: the result is \<open>NULL\<close>
  whatever the working directory, the mount point, the ignore list and the outcomes of
  the allocations are.
\<close>

theorem get_cfs_path_relative_outside:
  "get_cfs_path g al None = None
   \<and> (cget p 0 \<noteq> CHR ''/'' \<and> \<not> in_cfs g \<longrightarrow> get_cfs_path g al (Some p) = None)"
  by (simp add: get_cfs_path_def)

theorem get_cfs_path_relative_outside_witness:
  "get_cfs_path (g_example\<lparr>in_cfs := False, cwd := Some ''/cfs''\<rparr>) all_ok (Some ''dir/file'') = None"
  using get_cfs_path_relative_outside [of "g_example\<lparr>in_cfs := False, cwd := Some ''/cfs''\<rparr>" all_ok "''dir/file''"]
  by (simp add: g_example_def cget_def)

text \<open>
  C5. The claim asks that a relative pathname be classified as the absolute path made of
  the working directory, a slash and the pathname. Inside the remote scope, with mount
  point \<open>/cfs\<close>, ignore list \<open>tmp\<close> and stored working directory \<open>/a\<close> (that is
  \<open>/cfs/a\<close>), the code returns \<open>../../etc/passwd\<close> as the remote path
  \<open>/a/../../etc/passwd\<close>, whereas \<open>/cfs/a/../../etc/passwd\<close> is local; and it returns
  \<open>../tmp/f\<close> as the remote path \<open>/a/../tmp/f\<close>, whereas \<open>/cfs/a/../tmp/f\<close> falls
  under the ignore list and is local.
\<close>

theorem get_cfs_path_relative_escapes:
  "get_cfs_path g_example all_ok (Some ''../../etc/passwd'') = Some ''/a/../../etc/passwd''
   \<and> get_cfs_path g_example all_ok (Some (''/cfs'' @ ''/a'' @ ''/'' @ ''../../etc/passwd'')) = None
   \<and> get_cfs_path g_example all_ok (Some ''../tmp/f'') = Some ''/a/../tmp/f''
   \<and> get_cfs_path g_example all_ok (Some (''/cfs'' @ ''/a'' @ ''/'' @ ''../tmp/f'')) = None"
  by code_simp

lemma clean_buf_ex4: "clean_buf ''x/../y'' = ''y''"
  by code_simp

text \<open>
  What the branch for relative pathnames computes: the stored working directory, a slash
  and the cleaned pathname, with no comparison with the mount point or the ignore list.
\<close>

theorem get_cfs_path_relative_inside:
  "in_cfs g \<Longrightarrow> cget p 0 \<noteq> CHR ''/'' \<Longrightarrow> clean_ok al \<Longrightarrow> cat_ok al \<Longrightarrow> cwd g = Some c \<Longrightarrow>
   get_cfs_path g al (Some p) = Some (c @ ''/'' @ clean_buf p)"
  by (simp add: get_cfs_path_def get_clean_path_def cat_path_def)

theorem get_cfs_path_relative_inside_witness:
  "get_cfs_path g_example all_ok (Some ''x/../y'') = Some ''/a/y''"
  using get_cfs_path_relative_inside [of g_example "''x/../y''" all_ok "''/a''"]
  by (simp add: g_example_def all_ok_def cget_def clean_buf_ex4)

text \<open>
  C6, as stated, fails: when the allocation of the cleaned path fails for the remote path
  \<open>/cfs/a\<close>, the result is \<open>NULL\<close>, the very value returned for the local path
  \<open>/etc\<close>.
\<close>

theorem get_cfs_path_oom_same_as_local:
  "get_cfs_path g_example all_ok (Some ''/cfs/a'') = Some ''/a''
   \<and> get_cfs_path g_example (all_ok\<lparr>clean_ok := False\<rparr>) (Some ''/cfs/a'') = None
   \<and> get_cfs_path g_example all_ok (Some ''/etc'') = None"
  by code_simp

text \<open>
  C6, amended. Whenever an allocation that the call reaches fails (the buffer of the
  cleaned path; the joined path of a relative pathname; the copy of the ignore list or
  the result buffer of an absolute pathname), \<open>get_cfs_path\<close> returns \<open>NULL\<close>, as its
  comment says it does both for a path outside CFS and for an error.
\<close>

theorem get_cfs_path_alloc_failure:
  "\<not> clean_ok al
   \<or> cget p 0 \<noteq> CHR ''/'' \<and> \<not> cat_ok al
   \<or> cget p 0 = CHR ''/'' \<and> (\<not> strdup_ok al \<or> \<not> result_ok al)
   \<Longrightarrow> get_cfs_path g al (Some p) = None"
  by (auto simp: get_cfs_path_def get_clean_path_def cat_path_def Let_def split: option.splits)

theorem get_cfs_path_alloc_failure_witness:
  "get_cfs_path g_example (all_ok\<lparr>clean_ok := False\<rparr>) (Some ''/cfs/a'') = None
   \<and> get_cfs_path g_example (all_ok\<lparr>strdup_ok := False\<rparr>) (Some ''/cfs/a'') = None
   \<and> get_cfs_path g_example (all_ok\<lparr>result_ok := False\<rparr>) (Some ''/cfs/a'') = None
   \<and> get_cfs_path g_example (all_ok\<lparr>cat_ok := False\<rparr>) (Some ''a'') = None"
  using get_cfs_path_alloc_failure [of "all_ok\<lparr>clean_ok := False\<rparr>" "''/cfs/a''" g_example]
    get_cfs_path_alloc_failure [of "all_ok\<lparr>strdup_ok := False\<rparr>" "''/cfs/a''" g_example]
    get_cfs_path_alloc_failure [of "all_ok\<lparr>result_ok := False\<rparr>" "''/cfs/a''" g_example]
    get_cfs_path_alloc_failure [of "all_ok\<lparr>cat_ok := False\<rparr>" "''a''" g_example]
  by (simp add: all_ok_def cget_def)

section \<open>The error translators\<close>

lemma sint_neg32: "- (2 ^ 31) < sint (r :: 32 word) \<Longrightarrow> sint (- r) = - sint r"
  using sint_lt [of r] sint_ge [of r]
  by (simp add: sint_word_ariths signed_take_bit_int_eq_self)

lemma sint_ucast_neg64:
  assumes "- (2 ^ 31) < sint (q :: 64 word)" "sint q < 0"
  shows "sint (ucast (- q) :: 32 word) = - sint q"
proof -
  define k where "k = - sint q"
  have k: "0 < k" "k < 2 ^ 31" using assms by (simp_all add: k_def)
  have "q = word_of_int (sint q)" by simp
  then have "- q = word_of_int k" unfolding k_def by (metis wi_hom_neg)
  moreover have "is_down (ucast :: 64 word \<Rightarrow> 32 word)"
    by (simp add: is_down)
  ultimately have "(ucast (- q) :: 32 word) = word_of_int k"
    by (simp only: ucast_down_wi)
  then have "sint (ucast (- q) :: 32 word) = signed_take_bit 31 k"
    by (simp only: sint_sbintrunc') simp
  also have "\<dots> = k" using k by (simp add: signed_take_bit_int_eq_self)
  finally show ?thesis by (simp add: k_def)
qed

lemma errno_of_status32:
  assumes "0 < E" "E < 2 ^ 31"
  shows "cfs_errno e (- word_of_int E) = (- 1, word_of_int E) \<and> sint (word_of_int E :: c_int) = E"
proof -
  have sE: "sint (word_of_int E :: c_int) = E"
    using assms by (simp add: sint_sbintrunc' signed_take_bit_int_eq_self)
  then have "sint (- word_of_int E :: c_int) = - E"
    using assms sint_neg32 [of "word_of_int E"] by simp
  then show ?thesis using assms sE by (simp add: cfs_errno_def)
qed

lemma errno_of_status64:
  assumes "0 < E" "E < 2 ^ 31"
  shows "cfs_errno_ssize_t e (- word_of_int E) = (- 1, word_of_int E)"
proof -
  have sE: "sint (word_of_int E :: c_ssize_t) = E"
    using assms by (simp add: sint_sbintrunc' signed_take_bit_int_eq_self)
  have "sint (- word_of_int E :: c_ssize_t) = signed_take_bit 63 (- E)"
    using sE by (simp add: sint_word_minus)
  then have neg: "sint (- word_of_int E :: c_ssize_t) = - E"
    using assms by (simp add: signed_take_bit_int_eq_self)
  have "is_down (ucast :: 64 word \<Rightarrow> 32 word)"
    by (simp add: is_down)
  then have "(ucast (word_of_int E :: 64 word) :: 32 word) = word_of_int E"
    by (simp only: ucast_down_wi)
  then show ?thesis using assms neg by (simp add: cfs_errno_ssize_t_def)
qed

text \<open>
  C9. A remote status is the negative \<open>-E\<close> of an \<open>errno\<close> value \<open>E\<close>, which is a
  positive \<open>int\<close>, or a value that is not negative. For a negative status \<open>r\<close> both
  translators return \<open>-1\<close> and set \<open>errno\<close> to \<open>-r\<close> (\<open>E\<close> for the status \<open>-E\<close>);
  a status that is not negative is returned unchanged with \<open>errno\<close> set to 0, whatever
  \<open>errno\<close> was before.
\<close>

theorem cfs_errno_translate:
  "(sint r < 0 \<longrightarrow> cfs_errno e r = (- 1, - r))
   \<and> (- (2 ^ 31) < sint r \<and> sint r < 0 \<longrightarrow> sint (snd (cfs_errno e r)) = - sint r)
   \<and> (0 \<le> sint r \<longrightarrow> cfs_errno e r = (r, 0))
   \<and> (sint q < 0 \<longrightarrow> cfs_errno_ssize_t e q = (- 1, ucast (- q)))
   \<and> (- (2 ^ 31) < sint q \<and> sint q < 0 \<longrightarrow> sint (snd (cfs_errno_ssize_t e q)) = - sint q)
   \<and> (0 \<le> sint q \<longrightarrow> cfs_errno_ssize_t e q = (q, 0))
   \<and> (0 < E \<and> E < 2 ^ 31 \<longrightarrow>
        cfs_errno e (- word_of_int E) = (- 1, word_of_int E)
        \<and> cfs_errno_ssize_t e (- word_of_int E) = (- 1, word_of_int E)
        \<and> sint (word_of_int E :: c_int) = E)"
  using errno_of_status32 [of E e] errno_of_status64 [of E e]
  by (simp add: cfs_errno_def cfs_errno_ssize_t_def sint_neg32 sint_ucast_neg64)

theorem cfs_errno_translate_witness:
  "cfs_errno 11 (- 2) = (- 1, 2) \<and> sint (snd (cfs_errno 11 (- 2))) = 2 \<and> cfs_errno 11 5 = (5, 0)
   \<and> cfs_errno_ssize_t 11 (- 2) = (- 1, 2) \<and> sint (snd (cfs_errno_ssize_t 11 (- 2))) = 2
   \<and> cfs_errno_ssize_t 11 4096 = (4096, 0)"
  using cfs_errno_translate [of "- 2" 11 "- 2" 2] cfs_errno_translate [of 5 11 4096 2]
  by simp

section \<open>Resolving and duplicating descriptors\<close>

lemma mask_val: "CFS_FD_MASK = 1073741824" by (simp add: CFS_FD_MASK_def)

lemma and_not_mask_id: "v AND m = 0 \<Longrightarrow> v AND NOT m = (v :: 'a :: len word)"
proof -
  assume a: "v AND m = 0"
  have "v = v AND (m OR NOT m)" by simp
  also have "\<dots> = (v AND m) OR (v AND NOT m)" by (simp only: bit.conj_disj_distrib)
  finally show ?thesis using a by simp
qed

text \<open>The branches of \<open>get_cfs_fd\<close>, for any content of the alias map.\<close>

theorem get_cfs_fd_cases:
  "(dup_fds g d = Some v \<longrightarrow> get_cfs_fd g d = v)
   \<and> (dup_fds g d = Some v \<and> v AND CFS_FD_MASK = 0 \<longrightarrow> get_cfs_fd g d = v AND NOT CFS_FD_MASK)
   \<and> (dup_fds g d = None \<and> d AND CFS_FD_MASK \<noteq> 0 \<longrightarrow> get_cfs_fd g d = d AND NOT CFS_FD_MASK)
   \<and> (dup_fds g d = None \<and> d AND CFS_FD_MASK = 0 \<longrightarrow> get_cfs_fd g d = - 1)
   \<and> (\<not> fd_in_cfs g d \<longrightarrow> get_cfs_fd g d = - 1)"
  by (auto simp: get_cfs_fd_def fd_in_cfs_def and_not_mask_id)

theorem get_cfs_fd_cases_witness:
  "get_cfs_fd g_example 5 = 3 \<and> get_cfs_fd g_example 5 = 3 AND NOT CFS_FD_MASK
   \<and> get_cfs_fd g_example (CFS_FD_MASK + 9) = 9 \<and> get_cfs_fd g_example 9 = - 1"
  using get_cfs_fd_cases [of g_example 5 3] get_cfs_fd_cases [of g_example "CFS_FD_MASK + 9" 0]
    get_cfs_fd_cases [of g_example 9 0] 
  by (simp add: g_example_def mask_val)

text \<open>
  The only function that writes \<open>dup_fds\<close> is \<open>dup_fd\<close>: it keeps the registry well
  formed, and a registry without aliases is well formed when its handle ids are.
\<close>

lemma dup_fd_registry_ok:
  assumes "registry_ok (g_client_info s)"
  shows "registry_ok (g_client_info (snd (dup_fd s oldfd newfd)))"
proof (cases "open_files (g_client_info s) oldfd")
  case None
  then show ?thesis using assms by (simp add: dup_fd_def)
next
  case (Some a)
  then show ?thesis using assms
    by (auto simp: dup_fd_def Let_def registry_ok_def)
qed

lemma registry_ok_no_alias:
  "dup_fds g = Map.empty \<Longrightarrow> \<forall>k. open_files g k \<noteq> None \<longrightarrow> k AND CFS_FD_MASK = 0 \<Longrightarrow> registry_ok g"
  by (simp add: registry_ok_def)




text \<open>
  C8. When \<open>oldfd\<close> is not a key of \<open>open_files\<close>, \<open>dup_fd\<close> returns \<open>-1\<close> and leaves
  the whole state as it was. When \<open>oldfd\<close> maps to a handle, \<open>dup_fd\<close> returns
  \<open>newfd\<close>, adds one to the \<open>dup_ref\<close> of that handle and changes nothing else in it
  nor in any other handle, and records \<open>newfd \<mapsto> oldfd\<close> in \<open>dup_fds\<close>, the rest of
  \<open>g_client_info\<close> being unchanged.
\<close>

theorem dup_fd_spec:
  "(open_files (g_client_info s) oldfd = None \<longrightarrow> dup_fd s oldfd newfd = (- 1, s))
   \<and> (open_files (g_client_info s) oldfd = Some a \<longrightarrow>
        fst (dup_fd s oldfd newfd) = newfd
        \<and> dup_ref (file_mem (snd (dup_fd s oldfd newfd)) a) = dup_ref (file_mem s a) + 1
        \<and> (file_mem (snd (dup_fd s oldfd newfd)) a) \<lparr>dup_ref := dup_ref (file_mem s a)\<rparr> = file_mem s a
        \<and> (\<forall>b. b \<noteq> a \<longrightarrow> file_mem (snd (dup_fd s oldfd newfd)) b = file_mem s b)
        \<and> dup_fds (g_client_info (snd (dup_fd s oldfd newfd))) = (dup_fds (g_client_info s))(newfd \<mapsto> oldfd)
        \<and> (g_client_info (snd (dup_fd s oldfd newfd))) \<lparr>dup_fds := dup_fds (g_client_info s)\<rparr> = g_client_info s)"
  by (simp add: dup_fd_def Let_def)

theorem dup_fd_spec_witness:
  "dup_fd s_example 4 7 = (- 1, s_example)
   \<and> fst (dup_fd s_example 3 7) = 7
   \<and> dup_ref (file_mem (snd (dup_fd s_example 3 7)) 0) = 2
   \<and> dup_fds (g_client_info (snd (dup_fd s_example 3 7))) 7 = Some 3"
  using dup_fd_spec [of s_example 4 7 0] dup_fd_spec [of s_example 3 7 0]
  by (simp add: s_example_def g_example_def)

section \<open>The hybrid read\<close>

lemma pread_loop_no_pread:
  "pread_loop env qs i rd0 tr0 = (rd, tr) \<Longrightarrow> Pread \<notin> set tr0 \<Longrightarrow> Pread \<notin> set tr"
  by (induction env qs i rd0 tr0 rule: pread_loop.induct) (auto simp: Let_def split: if_splits)

lemma pread_loop_mono:
  "pread_loop env qs i rd0 tr0 = (rd, tr) \<Longrightarrow> rd0 \<le> rd"
proof (induction env qs i rd0 tr0 rule: pread_loop.induct)
  case (1 env i rd tr)
  then show ?case by simp
next
  case (2 env q qs i rd0 tr0)
  then show ?case by (fastforce simp: Let_def split: if_splits)
qed

lemma pread_loop_exact:
  "\<forall>j < length qs. exact_exchange (env (i + j)) (qs ! j) \<Longrightarrow>
   pread_loop env qs i rd tr =
     (rd + int (sum_list (map req_size qs)), tr @ concat (map round_trip [i ..< i + length qs]))"
proof (induction qs arbitrary: i rd tr)
  case Nil
  then show ?case by simp
next
  case (Cons q qs)
  from Cons.prems have q: "exact_exchange (env i) q" by fastforce
  from Cons.prems have "\<forall>j < length qs. exact_exchange (env (Suc i + j)) (qs ! j)" by fastforce
  from Cons.IH [OF this]
  have ih: "pread_loop env qs (Suc i) rd1 tr1 =
      (rd1 + int (sum_list (map req_size qs)), tr1 @ concat (map round_trip [Suc i ..< Suc i + length qs]))"
    for rd1 tr1 .
  have "[i ..< i + length (q # qs)] = i # [Suc i ..< i + length (q # qs)]"
    by (rule upt_conv_Cons) simp
  moreover have "i + length (q # qs) = Suc i + length qs" by simp
  ultimately have upt: "[i ..< i + length (q # qs)] = i # [Suc i ..< Suc i + length qs]"
    by (simp only:)
  have step: "pread_loop env (q # qs) i rd tr =
      pread_loop env qs (Suc i) (rd + int (req_size q)) (tr @ round_trip i)"
    using q by (simp add: exact_exchange_def round_trip_def Let_def)
  show ?case
    unfolding step ih upt by simp
qed

text \<open>
  The ways in which the loop falls short: the query reports no descriptor, a collaborator
  fails on a descriptor, or a reply is shorter than the descriptor.
\<close>

lemma cfs_pread_sock_query_failed:
  "req_count \<le> 0 \<Longrightarrow> 0 < count \<Longrightarrow>
   cfs_pread_sock req_count req env sdk_read count = (sdk_read, [ReadRequests, Pread])"
  by (simp add: cfs_pread_sock_def)

lemma pread_loop_transport_failure:
  assumes "req_size q \<noteq> 0" "partition_id q \<noteq> 0"
    and "\<not> packet_ok (env i) \<or> sock_fd (env i) < 0 \<or> write_re (env i) < 0 \<or> reply_re (env i) < 0"
  shows "fst (pread_loop env (q # qs) i rd tr) = rd"
  using assms by auto

lemma pread_loop_short_reply:
  assumes "req_size q \<noteq> 0" "partition_id q \<noteq> 0" "packet_ok (env i)" "0 \<le> sock_fd (env i)"
    and "0 \<le> write_re (env i)" "0 \<le> reply_re (env i)" "reply_re (env i) < int (req_size q)"
  shows "pread_loop env (q # qs) i rd tr = (rd + reply_re (env i), tr @ round_trip i)"
  using assms by (simp add: round_trip_def Let_def)

lemma cfs_pread_sock_first_exchange_fails:
  assumes "req = q # qs" "0 < req_count" "req_size q \<noteq> 0" "partition_id q \<noteq> 0" "0 < count"
    and "\<not> packet_ok (env 0) \<or> sock_fd (env 0) < 0 \<or> write_re (env 0) < 0 \<or> reply_re (env 0) < 0"
  shows "fst (cfs_pread_sock req_count req env sdk_read count) = sdk_read"
proof -
  obtain n where n: "nat req_count = Suc n" using assms(2) by (cases "nat req_count") auto
  have "fst (pread_loop env (q # take n qs) 0 0 [ReadRequests]) = 0"
    using assms(3,4,6) by (rule pread_loop_transport_failure)
  then show ?thesis
    using assms(1,5) n by (simp add: cfs_pread_sock_def split_beta)
qed

text \<open>
  C2. Whenever the loop ends with a total below \<open>count\<close>, for whatever reason,
  \<open>cfs_pread_sock\<close> calls \<open>cfs_pread\<close> once, after the loop, and returns what that call
  returns; the total itself is never negative, so no failure value of a collaborator
  reaches the caller.
\<close>

theorem cfs_pread_sock_fallback:
  assumes "pread_loop env (take (nat req_count) req) 0 0 [ReadRequests] = (rd, tr)"
    and "rd < int count"
  shows "cfs_pread_sock req_count req env sdk_read count = (sdk_read, tr @ [Pread])
         \<and> Pread \<notin> set tr \<and> 0 \<le> rd"
  using assms pread_loop_no_pread [OF assms(1)] pread_loop_mono [OF assms(1)]
  by (simp add: cfs_pread_sock_def)

lemma pread_loop_short: "pread_loop env_short [req_example] 0 0 [ReadRequests] =
   (100, [ReadRequests, NewPacket 0, GetConn 0, WriteSock 0, GetReadReply 0, PutConn 0])"
  by (simp add: env_short_def req_example_def)

theorem cfs_pread_sock_fallback_witness:
  "cfs_pread_sock 1 [req_example] env_short 4096 4096 =
     (4096, [ReadRequests, NewPacket 0, GetConn 0, WriteSock 0, GetReadReply 0, PutConn 0, Pread])"
  using cfs_pread_sock_fallback [of env_short 1 "[req_example]" 100 _ 4096 4096] pread_loop_short
  by simp

text \<open>
  C3. When the descriptors reported by \<open>cfs_read_requests\<close> are non-empty extents, none
  of them a hole, whose lengths add up to \<open>count\<close>, and every exchange succeeds with
  exactly the descriptor's length, \<open>cfs_pread_sock\<close> returns \<open>count\<close>, makes one socket
  round trip per descriptor and does not call \<open>cfs_pread\<close>; with a single descriptor
  there is one round trip.
\<close>

theorem cfs_pread_sock_fast_path:
  assumes "\<forall>j < length (take (nat req_count) req). exact_exchange (env j) (req ! j)"
    and "sum_list (map req_size (take (nat req_count) req)) = count"
  shows "cfs_pread_sock req_count req env sdk_read count =
     (int count, ReadRequests # concat (map round_trip [0 ..< length (take (nat req_count) req)]))
     \<and> Pread \<notin> set (snd (cfs_pread_sock req_count req env sdk_read count))
     \<and> (length (take (nat req_count) req) = 1 \<longrightarrow>
          snd (cfs_pread_sock req_count req env sdk_read count) = ReadRequests # round_trip 0)"
proof -
  let ?qs = "take (nat req_count) req"
  have "\<forall>j < length ?qs. exact_exchange (env (0 + j)) (?qs ! j)"
    using assms(1) by simp
  from pread_loop_exact [OF this, of 0 "[ReadRequests]"] assms(2)
  have loop: "pread_loop env ?qs 0 0 [ReadRequests] =
      (int count, ReadRequests # concat (map round_trip [0 ..< length ?qs]))"
    by simp
  then have res: "cfs_pread_sock req_count req env sdk_read count =
      (int count, ReadRequests # concat (map round_trip [0 ..< length ?qs]))"
    by (simp add: cfs_pread_sock_def)
  moreover have "Pread \<notin> set (ReadRequests # concat (map round_trip [0 ..< length ?qs]))"
    using pread_loop_no_pread [OF loop] by simp
  ultimately show ?thesis by simp
qed

theorem cfs_pread_sock_fast_path_witness:
  "cfs_pread_sock 1 [req_example] env_exact (- 5) 4096 =
     (4096, [ReadRequests, NewPacket 0, GetConn 0, WriteSock 0, GetReadReply 0, PutConn 0])"
  using cfs_pread_sock_fast_path [of 1 "[req_example]" env_exact 4096 "- 5"]
  by (simp add: exact_exchange_def env_exact_def req_example_def round_trip_def)

end
